theory Spec2Isabelle
  imports Complex_Main "HOL-Library.Log_Nat"
begin

section \<open>The BW Fill Repeater block (src/module.py)\<close>

text \<open>
  The block \<^verbatim>\<open>BWFillRepeater\<close> keeps six attributes, derives a replication plan
  (\<^verbatim>\<open>num_copies\<close>, \<^verbatim>\<open>shift_spacing\<close>) from its bandwidths, and in \<^verbatim>\<open>work\<close> sums
  \<^verbatim>\<open>num_copies\<close> frequency-shifted copies of the input block into the output buffer.

  Numbers. The bandwidths and the sample rate are finite float64 values, modelled by
  the \<^typ>\<open>real\<close> numbers they denote. The floor division that decides the number of
  copies is modelled with the rounding and the overflow of float64 arithmetic, since
  they change the integer it yields and whether the call returns. Everywhere else
  (the true division of the shift spacing, the time vector, the mixers and the sums of
  \<^verbatim>\<open>work\<close>) float64 and complex64 values are modelled by exact \<^typ>\<open>real\<close> and
  \<^typ>\<open>complex\<close> numbers: rounding and overflow are not modelled there.
  A value that is not a finite number (an \<^verbatim>\<open>inf\<close> or a \<^verbatim>\<open>nan\<close>) is \<open>None\<close>; in a numpy
  array such an element stays non-finite through every multiplication, exponential and
  addition of \<^verbatim>\<open>work\<close>. Python's \<^verbatim>\<open>int\<close> is \<^typ>\<open>int\<close>.
  Exceptions are values of \<open>py_error\<close>, returned as \<open>Inl\<close>.
\<close>

subsection \<open>Python and numpy operations used by the block\<close>

datatype py_error = ZeroDivisionError | ValueError | OverflowError

subsubsection \<open>float64 arithmetic\<close>

text \<open>Rounding a real number to the nearest integer, ties to the even one.\<close>

definition round_half_even :: "real \<Rightarrow> int" where
  "round_half_even y =
     (let f = \<lfloor>y\<rfloor> in
      if y - of_int f < 1 / 2 then f
      else if 1 / 2 < y - of_int f then f + 1
      else if even f then f else f + 1)"

text \<open>The binary exponent \<open>e\<close> of a nonzero real: \<open>2\<^sup>e \<le> \<bar>x\<bar> < 2\<^sup>e\<^sup>+\<^sup>1\<close>.\<close>

definition binade :: "real \<Rightarrow> int" where
  "binade x =
     (if 1 \<le> \<bar>x\<bar> then bitlen \<lfloor>\<bar>x\<bar>\<rfloor> - 1 else - bitlen (\<lceil>1 / \<bar>x\<bar>\<rceil> - 1))"

text \<open>
  The float64 nearest to a real number (IEEE 754 binary64, round to nearest, ties to
  even): 53 significant bits, least exponent \<open>-1022\<close> with subnormal numbers below, and
  \<^verbatim>\<open>inf\<close> (\<open>None\<close>) when the rounded magnitude reaches \<open>2\<^sup>1\<^sup>0\<^sup>2\<^sup>4\<close>.
\<close>

definition float64_round :: "real \<Rightarrow> real option" where
  "float64_round x =
     (if x = 0 then Some 0
      else
        (let e = max (binade x) (- 1022);
             u = 2 powi (e - 52);
             r = of_int (round_half_even (x / u)) * u
         in if 2 ^ 1024 \<le> \<bar>r\<bar> then None else Some r))"

text \<open>
  Subtraction, addition and division of float64 values: the exact result, rounded. An
  infinite operand gives a non-finite result.
\<close>

definition f64_sub :: "real option \<Rightarrow> real option \<Rightarrow> real option" where
  "f64_sub a b =
     (case a of None \<Rightarrow> None
      | Some x \<Rightarrow> (case b of None \<Rightarrow> None | Some y \<Rightarrow> float64_round (x - y)))"

definition f64_add :: "real option \<Rightarrow> real option \<Rightarrow> real option" where
  "f64_add a b =
     (case a of None \<Rightarrow> None
      | Some x \<Rightarrow> (case b of None \<Rightarrow> None | Some y \<Rightarrow> float64_round (x + y)))"

definition f64_div :: "real option \<Rightarrow> real \<Rightarrow> real option" where
  "f64_div a y = (case a of None \<Rightarrow> None | Some x \<Rightarrow> float64_round (x / y))"

text \<open>Truncation towards zero.\<close>

definition trunc :: "real \<Rightarrow> int" where
  "trunc x = (if 0 \<le> x then \<lfloor>x\<rfloor> else \<lceil>x\<rceil>)"

text \<open>
  C's \<^verbatim>\<open>fmod(x, y)\<close> for \<open>y \<noteq> 0\<close>: the remainder of the division truncated towards
  zero. It is a float64 whenever \<open>x\<close> and \<open>y\<close> are: no rounding takes place.
\<close>

definition c_fmod :: "real \<Rightarrow> real \<Rightarrow> real" where
  "c_fmod x y = x - of_int (trunc (x / y)) * y"

subsubsection \<open>Python's operations\<close>

text \<open>
  \<^verbatim>\<open>vx // wx\<close> on floats, as CPython computes it: it raises on \<^verbatim>\<open>wx == 0\<close>; otherwise
  \<^verbatim>\<open>mod = fmod(vx, wx)\<close>, \<^verbatim>\<open>div = (vx - mod) / wx\<close> (a rounded subtraction and a rounded
  division); when \<^verbatim>\<open>mod\<close> is nonzero and its sign is not that of \<^verbatim>\<open>wx\<close>,
  \<^verbatim>\<open>div -= 1.0\<close>; and the result is \<^verbatim>\<open>floor(div)\<close>, plus 1 when
  \<^verbatim>\<open>div - floor(div) > 0.5\<close>, or zero when \<^verbatim>\<open>div\<close> is zero. An infinite \<^verbatim>\<open>div\<close>
  gives an infinite result.
\<close>

definition py_floordiv :: "real \<Rightarrow> real \<Rightarrow> py_error + real option" where
  "py_floordiv vx wx =
     (if wx = 0 then Inl ZeroDivisionError
      else
        (let rem = c_fmod vx wx;
             quot0 = f64_div (float64_round (vx - rem)) wx;
             quot = (if rem \<noteq> 0 \<and> ((wx < 0) \<noteq> (rem < 0))
                     then f64_sub quot0 (Some 1) else quot0)
         in Inr (case quot of
                   None \<Rightarrow> None
                 | Some d \<Rightarrow>
                     if d \<noteq> 0 then
                       (let floordiv = of_int \<lfloor>d\<rfloor> in
                        if (case f64_sub (Some d) (Some floordiv) of
                              None \<Rightarrow> False | Some s \<Rightarrow> 1 / 2 < s)
                        then f64_add (Some floordiv) (Some 1)
                        else Some floordiv)
                     else Some 0)))"

text \<open>
  \<^verbatim>\<open>int(x)\<close> of a float: truncation towards zero; \<^verbatim>\<open>int(inf)\<close> raises
  \<^verbatim>\<open>OverflowError\<close>. (\<^verbatim>\<open>int(nan)\<close> raises \<^verbatim>\<open>ValueError\<close>, but the floor division of
  two finite floats is never a \<^verbatim>\<open>nan\<close>.)
\<close>

definition py_int :: "real option \<Rightarrow> py_error + int" where
  "py_int x = (case x of None \<Rightarrow> Inl OverflowError | Some v \<Rightarrow> Inr (trunc v))"

text \<open>
  \<^verbatim>\<open>a / n\<close> of a float by a Python int: raises on \<^verbatim>\<open>n == 0\<close>. The quotient is the
  exact one: its rounding is not modelled.
\<close>

definition py_truediv :: "real \<Rightarrow> int \<Rightarrow> py_error + real" where
  "py_truediv a n = (if n = 0 then Inl ZeroDivisionError else Inr (a / of_int n))"

text \<open>\<^verbatim>\<open>range(n)\<close>: the integers \<open>0, \<dots>, n - 1\<close>; empty for \<open>n \<le> 0\<close>.\<close>

definition py_range :: "int \<Rightarrow> int list" where
  "py_range n = [0..n - 1]"

subsubsection \<open>numpy's operations on arrays\<close>

text \<open>\<^verbatim>\<open>np.zeros(n, dtype=np.complex64)\<close>.\<close>

definition np_zeros :: "nat \<Rightarrow> complex option list" where
  "np_zeros n = replicate n (Some 0)"

text \<open>
  \<^verbatim>\<open>out[:] = v\<close> on one-dimensional arrays: \<open>v\<close> must have the length of \<open>out\<close>, or
  length 1 (it is then broadcast); any other shape raises \<^verbatim>\<open>ValueError\<close>.
\<close>

definition np_assign :: "'a list \<Rightarrow> 'a list \<Rightarrow> py_error + 'a list" where
  "np_assign out v =
     (if length v = length out then Inr v
      else if length v = 1 then Inr (replicate (length out) (v ! 0))
      else Inl ValueError)"

text \<open>\<^verbatim>\<open>np.arange(a, b)\<close> on Python ints: the integers \<open>a, \<dots>, b - 1\<close>.\<close>

definition np_arange :: "int \<Rightarrow> int \<Rightarrow> int list" where
  "np_arange a b = [a..b - 1]"

text \<open>
  \<^verbatim>\<open>xs / d\<close> of an integer array by a float: numpy does not raise on \<^verbatim>\<open>d == 0\<close>, every
  element becomes \<^verbatim>\<open>inf\<close> or \<^verbatim>\<open>nan\<close>.
\<close>

definition np_true_divide :: "int list \<Rightarrow> real \<Rightarrow> real option list" where
  "np_true_divide xs d = map (\<lambda>x. if d = 0 then None else Some (real_of_int x / d)) xs"

text \<open>\<^verbatim>\<open>np.exp(2j * np.pi * freq_shift * t).astype(np.complex64)\<close>.\<close>

definition np_exp_mixer :: "real \<Rightarrow> real option list \<Rightarrow> complex option list" where
  "np_exp_mixer freq_shift t =
     map (map_option (\<lambda>tk. exp (2 * \<i> * of_real pi * of_real freq_shift * of_real tk))) t"

text \<open>\<^verbatim>\<open>in0 * mixer\<close>: both arrays have the length of the input block.\<close>

definition np_multiply :: "complex list \<Rightarrow> complex option list \<Rightarrow> complex option list" where
  "np_multiply in0 mixer = map2 (\<lambda>x m. map_option (\<lambda>c. x * c) m) in0 mixer"

text \<open>Addition of two array elements; a non-finite operand gives a non-finite sum.\<close>

definition np_add :: "complex option \<Rightarrow> complex option \<Rightarrow> complex option" where
  "np_add a b = (case a of None \<Rightarrow> None | Some x \<Rightarrow> map_option (\<lambda>y. x + y) b)"

text \<open>
  \<^verbatim>\<open>out += v\<close>, in place: \<open>v\<close> has the length of \<open>out\<close>, or length 1 and is broadcast;
  any other shape raises \<^verbatim>\<open>ValueError\<close>.
\<close>

definition np_iadd :: "complex option list \<Rightarrow> complex option list \<Rightarrow> py_error + complex option list" where
  "np_iadd out v =
     (if length v = length out then Inr (map2 np_add out v)
      else if length v = 1 then Inr (map (\<lambda>a. np_add a (v ! 0)) out)
      else Inl ValueError)"

subsection \<open>The block's state\<close>

record BWFillRepeater =
  input_bw :: real
  output_bw :: real
  samp_rate :: real
  num_copies :: int
  shift_spacing :: real
  sample_idx :: int

text \<open>
  The line that \<^verbatim>\<open>set_input_bandwidth\<close> prints: the new input bandwidth, the copy
  count and the shift spacing.
\<close>

datatype notification = Bandwidth_updated real int real

subsection \<open>The constructor\<close>

definition init :: "real \<Rightarrow> real \<Rightarrow> real \<Rightarrow> py_error + BWFillRepeater" where
  "init input_bw0 output_bw0 samp_rate0 =
     (case py_floordiv output_bw0 input_bw0 of
        Inl e \<Rightarrow> Inl e
      | Inr q \<Rightarrow>
          (case py_int q of
             Inl e \<Rightarrow> Inl e
           | Inr k \<Rightarrow>
               (let n = max 1 k in
                case py_truediv output_bw0 n of
                  Inl e \<Rightarrow> Inl e
                | Inr sp \<Rightarrow>
                    Inr \<lparr>input_bw = input_bw0, output_bw = output_bw0, samp_rate = samp_rate0,
                         num_copies = n, shift_spacing = sp, sample_idx = 0\<rparr>)))"

subsection \<open>Updating the input bandwidth\<close>

text \<open>
  An exception leaves the block with the attributes assigned before it was raised: the
  error comes with the block as it then is.
\<close>

definition set_input_bandwidth ::
  "BWFillRepeater \<Rightarrow> real
     \<Rightarrow> (py_error \<times> BWFillRepeater) + (BWFillRepeater \<times> notification list)" where
  "set_input_bandwidth self b =
     (if b > 0 then
        (let s1 = self\<lparr>input_bw := b\<rparr> in
         case py_floordiv (output_bw s1) (input_bw s1) of
           Inl e \<Rightarrow> Inl (e, s1)
         | Inr q \<Rightarrow>
             (case py_int q of
                Inl e \<Rightarrow> Inl (e, s1)
              | Inr k \<Rightarrow>
                  (let s2 = s1\<lparr>num_copies := max 1 k\<rparr> in
                   case py_truediv (output_bw s2) (num_copies s2) of
                     Inl e \<Rightarrow> Inl (e, s2)
                   | Inr sp \<Rightarrow>
                       (let s3 = s2\<lparr>shift_spacing := sp\<rparr> in
                        Inr (s3, [Bandwidth_updated (input_bw s3) (num_copies s3)
                                    (shift_spacing s3)])))))
      else Inr (self, []))"

subsection \<open>Processing one block\<close>

text \<open>The sample indices of the time vector: \<^verbatim>\<open>np.arange(sample_idx, sample_idx + n)\<close>.\<close>

definition time_indices :: "BWFillRepeater \<Rightarrow> nat \<Rightarrow> int list" where
  "time_indices self num_samples =
     np_arange (sample_idx self) (sample_idx self + int num_samples)"

text \<open>\<^verbatim>\<open>freq_shift = -self.output_bw / 1 + i * self.shift_spacing\<close>.\<close>

definition freq_shift :: "BWFillRepeater \<Rightarrow> int \<Rightarrow> real" where
  "freq_shift self i = - output_bw self / 1 + of_int i * shift_spacing self"

text \<open>The body of the loop over the copies, for copy \<open>i\<close>.\<close>

definition copy_step ::
  "BWFillRepeater \<Rightarrow> complex list \<Rightarrow> real option list \<Rightarrow> complex option list \<Rightarrow> int
     \<Rightarrow> py_error + complex option list" where
  "copy_step self in0 t out i =
     (let mixer = np_exp_mixer (freq_shift self i) t
      in np_iadd out (np_multiply in0 mixer))"

text \<open>The loop \<^verbatim>\<open>for i in range(self.num_copies)\<close>, over the list of its indices.\<close>

fun copies_loop ::
  "BWFillRepeater \<Rightarrow> complex list \<Rightarrow> real option list \<Rightarrow> int list \<Rightarrow> complex option list
     \<Rightarrow> py_error + complex option list" where
  "copies_loop self in0 t [] out = Inr out"
| "copies_loop self in0 t (i # js) out =
     (case copy_step self in0 t out i of
        Inl e \<Rightarrow> Inl e
      | Inr out' \<Rightarrow> copies_loop self in0 t js out')"

text \<open>
  \<^verbatim>\<open>work\<close> gets the input block \<open>in0\<close> and the output buffer \<open>out0\<close> of the host, and
  returns the filled buffer, its return value \<^verbatim>\<open>len(out)\<close> and the updated block.
\<close>

definition work ::
  "BWFillRepeater \<Rightarrow> complex list \<Rightarrow> complex option list
     \<Rightarrow> py_error + (complex option list \<times> nat \<times> BWFillRepeater)" where
  "work self in0 out0 =
     (let num_samples = length in0 in
      case np_assign out0 (np_zeros num_samples) of
        Inl e \<Rightarrow> Inl e
      | Inr out1 \<Rightarrow>
          (let t = np_true_divide (time_indices self num_samples) (samp_rate self) in
           case copies_loop self in0 t (py_range (num_copies self)) out1 of
             Inl e \<Rightarrow> Inl e
           | Inr out2 \<Rightarrow>
               Inr (out2, length out2,
                    self\<lparr>sample_idx := sample_idx self + int num_samples\<rparr>)))"


subsection \<open>The states the block can be in\<close>

text \<open>
  A state is reachable when the constructor returned it, or when a call of
  \<^verbatim>\<open>set_input_bandwidth\<close> or \<^verbatim>\<open>work\<close> on a reachable state returned it, or when a call
  of \<^verbatim>\<open>set_input_bandwidth\<close> on a reachable state raised and left it.
\<close>

inductive reachable :: "BWFillRepeater \<Rightarrow> bool" where
  constructed: "init ib ob sr = Inr s \<Longrightarrow> reachable s"
| updated: "reachable s \<Longrightarrow> set_input_bandwidth s b = Inr (s', ns) \<Longrightarrow> reachable s'"
| update_raised: "reachable s \<Longrightarrow> set_input_bandwidth s b = Inl (e, s') \<Longrightarrow> reachable s'"
| processed: "reachable s \<Longrightarrow> work s in0 out0 = Inr (out, r, s') \<Longrightarrow> reachable s'"

section \<open>Properties\<close>

subsection \<open>Rounding to float64\<close>

lemma trunc_of_int: "trunc (of_int z) = z"
  by (simp add: trunc_def)

lemma trunc_nonneg: "0 \<le> x \<Longrightarrow> trunc x = \<lfloor>x\<rfloor>"
  by (simp add: trunc_def)

lemma round_half_even_error: "\<bar>of_int (round_half_even y) - y\<bar> \<le> 1 / 2"
  unfolding round_half_even_def Let_def by (auto; linarith)

lemma round_half_even_of_int: "round_half_even (of_int n) = n"
  by (simp add: round_half_even_def)

lemma binade_bounds:
  assumes "x \<noteq> 0"
  shows "2 powi binade x \<le> \<bar>x\<bar>" and "\<bar>x\<bar> < 2 powi (binade x + 1)"
proof -
  have "2 powi binade x \<le> \<bar>x\<bar> \<and> \<bar>x\<bar> < 2 powi (binade x + 1)"
  proof (cases "1 \<le> \<bar>x\<bar>")
    case True
    let ?n = "\<lfloor>\<bar>x\<bar>\<rfloor>"
    have n: "0 < ?n" using True by linarith
    from bitlen_bounds [OF n]
    have lo: "2 ^ nat (bitlen ?n - 1) \<le> ?n" and hi: "?n < 2 ^ nat (bitlen ?n)" by simp_all
    have b1: "1 \<le> bitlen ?n" using n by (simp add: bitlen_alt_def)
    have e: "binade x = bitlen ?n - 1" using True by (simp add: binade_def)
    have "(2::real) powi (bitlen ?n - 1) = 2 ^ nat (bitlen ?n - 1)"
      using b1 by (simp add: power_int_def)
    also have "\<dots> = of_int (2 ^ nat (bitlen ?n - 1))" by simp
    also have "\<dots> \<le> of_int ?n" using lo by (simp only: of_int_le_iff)
    also have "\<dots> \<le> \<bar>x\<bar>" by simp
    finally have 1: "2 powi binade x \<le> \<bar>x\<bar>" using e by simp
    have "?n + 1 \<le> 2 ^ nat (bitlen ?n)" using hi by simp
    then have "of_int (?n + 1) \<le> (of_int (2 ^ nat (bitlen ?n)) :: real)"
      by (simp only: of_int_le_iff)
    then have a: "real_of_int ?n + 1 \<le> 2 ^ nat (bitlen ?n)" by simp
    have b: "\<bar>x\<bar> < real_of_int ?n + 1" by linarith
    from a b have "\<bar>x\<bar> < 2 ^ nat (bitlen ?n)" by linarith
    also have "\<dots> = 2 powi (bitlen ?n)" using b1 by (simp add: power_int_def)
    finally have 2: "\<bar>x\<bar> < 2 powi (binade x + 1)" using e by simp
    from 1 2 show ?thesis ..
  next
    case False
    let ?y = "1 / \<bar>x\<bar>"
    let ?m = "\<lceil>?y\<rceil> - 1"
    have xpos: "0 < \<bar>x\<bar>" using assms by simp
    have y1: "1 < ?y" using False xpos by (simp add: field_simps)
    have m: "0 < ?m" using y1 by linarith
    have my: "of_int ?m < ?y" by linarith
    have ym: "?y \<le> of_int ?m + 1" by linarith
    from bitlen_bounds [OF m]
    have lo: "2 ^ nat (bitlen ?m - 1) \<le> ?m" and hi: "?m < 2 ^ nat (bitlen ?m)" by simp_all
    have b1: "1 \<le> bitlen ?m" using m by (simp add: bitlen_alt_def)
    have e: "binade x = - bitlen ?m" using False by (simp add: binade_def)
    have "?m + 1 \<le> 2 ^ nat (bitlen ?m)" using hi by simp
    then have "of_int (?m + 1) \<le> (of_int (2 ^ nat (bitlen ?m)) :: real)"
      by (simp only: of_int_le_iff)
    then have "real_of_int ?m + 1 \<le> 2 ^ nat (bitlen ?m)" by simp
    with ym have yhi: "?y \<le> 2 ^ nat (bitlen ?m)" by linarith
    have "(of_int (2 ^ nat (bitlen ?m - 1)) :: real) \<le> of_int ?m"
      using lo by (simp only: of_int_le_iff)
    then have "2 ^ nat (bitlen ?m - 1) \<le> real_of_int ?m" by simp
    with my have ylo: "2 ^ nat (bitlen ?m - 1) < ?y" by linarith
    have p1: "(2::real) powi (- bitlen ?m) = 1 / 2 ^ nat (bitlen ?m)"
      using b1 by (simp add: power_int_def field_simps)
    have p2: "(2::real) powi (- bitlen ?m + 1) = 1 / 2 ^ nat (bitlen ?m - 1)"
      using b1 by (auto simp: power_int_def field_simps nat_diff_distrib)
    have 1: "2 powi binade x \<le> \<bar>x\<bar>"
      unfolding e p1 using yhi xpos by (simp add: field_simps)
    have 2: "\<bar>x\<bar> < 2 powi (binade x + 1)"
      unfolding e p2 using ylo xpos by (simp add: field_simps)
    from 1 2 show ?thesis ..
  qed
  then show "2 powi binade x \<le> \<bar>x\<bar>" and "\<bar>x\<bar> < 2 powi (binade x + 1)" by simp_all
qed

lemma float64_round_unfold:
  assumes "x \<noteq> 0"
  shows "float64_round x =
     (if (2::real) ^ 1024 \<le> \<bar>real_of_int (round_half_even (x / 2 powi (max (binade x) (- 1022) - 52)))
                    * 2 powi (max (binade x) (- 1022) - 52)\<bar>
      then None
      else Some (real_of_int (round_half_even (x / 2 powi (max (binade x) (- 1022) - 52)))
                    * 2 powi (max (binade x) (- 1022) - 52)))"
  unfolding float64_round_def Let_def if_not_P [OF assms] ..

lemma round_scaled_error:
  fixes u :: real
  assumes "0 < u"
  shows "\<bar>of_int (round_half_even (x / u)) * u - x\<bar> \<le> u / 2"
proof -
  have "of_int (round_half_even (x / u)) * u - x = (of_int (round_half_even (x / u)) - x / u) * u"
    using assms by (simp add: field_simps)
  then have "\<bar>of_int (round_half_even (x / u)) * u - x\<bar>
      = \<bar>of_int (round_half_even (x / u)) - x / u\<bar> * u"
    using assms by (simp add: abs_mult)
  also have "\<dots> \<le> (1 / 2) * u"
    using round_half_even_error [of "x / u"] assms by (intro mult_right_mono) simp_all
  finally show ?thesis by simp
qed

lemma float64_round_error:
  assumes "\<bar>x\<bar> < 2 ^ 1023"
  shows "\<exists>r. float64_round x = Some r \<and> \<bar>r - x\<bar> \<le> max (\<bar>x\<bar> / 2 ^ 53) (2 powi (- 1075))"
proof (cases "x = 0")
  case True
  then show ?thesis by (simp add: float64_round_def)
next
  case False
  let ?e = "max (binade x) (- 1022)"
  let ?u = "(2::real) powi (?e - 52)"
  let ?r = "of_int (round_half_even (x / ?u)) * ?u"
  have upos: "0 < ?u" by simp
  have err: "\<bar>?r - x\<bar> \<le> ?u / 2" using upos by (rule round_scaled_error)
  have half: "?u / 2 \<le> max (\<bar>x\<bar> / 2 ^ 53) (2 powi (- 1075))"
  proof (cases "- 1022 \<le> binade x")
    case True
    then have "?u = 2 powi binade x / 2 ^ 52" by (simp add: max_def power_int_diff)
    then have "?u / 2 = 2 powi binade x / 2 ^ 53" by simp
    also have "\<dots> \<le> \<bar>x\<bar> / 2 ^ 53"
      using binade_bounds(1) [OF False] by (simp add: divide_right_mono)
    finally show ?thesis by simp
  next
    case False
    then have "?u = 2 powi (- 1074)" by (simp add: max_def)
    then have "?u / 2 = 2 powi (- 1075)" by (simp add: power_int_minus)
    then show ?thesis by simp
  qed
  have small: "(2::real) powi (- 1075) \<le> 1"
    by (simp add: power_int_minus field_simps)
  have "\<bar>x\<bar> / 2 ^ 53 \<le> \<bar>x\<bar>" by (simp add: field_simps)
  with assms have b1: "\<bar>x\<bar> / 2 ^ 53 < 2 ^ 1023" by linarith
  have b2: "(1::real) < 2 ^ 1023" by simp
  from err half have e2: "\<bar>?r - x\<bar> \<le> max (\<bar>x\<bar> / 2 ^ 53) (2 powi (- 1075))" by linarith
  have "max (\<bar>x\<bar> / 2 ^ 53) (2 powi (- 1075)) < 2 ^ 1023"
    using b1 b2 small by (simp add: max_def)
  with e2 assms have "\<bar>?r\<bar> < 2 ^ 1023 + 2 ^ 1023" by linarith
  also have "\<dots> = (2::real) ^ 1024" by simp
  finally have "\<not> 2 ^ 1024 \<le> \<bar>?r\<bar>" by simp
  then have "float64_round x = Some ?r"
    unfolding float64_round_unfold [OF False] by (simp only: if_False)
  with e2 show ?thesis by blast
qed

lemma float64_round_normal:
  assumes "2 powi (- 1022) \<le> \<bar>x\<bar>" and "\<bar>x\<bar> < 2 ^ 1023"
  shows "\<exists>r. float64_round x = Some r \<and> \<bar>r - x\<bar> \<le> \<bar>x\<bar> / 2 ^ 53"
proof -
  have "(2::real) powi (- 1075) = 2 powi (- 1022) / 2 ^ 53"
    by (simp add: power_int_minus field_simps)
  also have "\<dots> \<le> \<bar>x\<bar> / 2 ^ 53"
    using assms(1) by (simp add: divide_right_mono)
  finally have "max (\<bar>x\<bar> / 2 ^ 53) (2 powi (- 1075)) = \<bar>x\<bar> / 2 ^ 53" by simp
  with float64_round_error [OF assms(2)] show ?thesis by simp
qed

lemma float64_round_of_int:
  assumes "\<bar>n\<bar> < 2 ^ 53"
  shows "float64_round (of_int n) = Some (of_int n)"
proof (cases "n = 0")
  case True
  then show ?thesis by (simp add: float64_round_def)
next
  case False
  let ?x = "real_of_int n"
  have x0: "?x \<noteq> 0" using False by simp
  have x1: "1 \<le> \<bar>?x\<bar>" using False by (simp flip: of_int_abs)
  have x53: "\<bar>?x\<bar> < 2 ^ 53"
  proof -
    have "real_of_int \<bar>n\<bar> < real_of_int (2 ^ 53)" using assms by (simp only: of_int_less_iff)
    then show ?thesis by simp
  qed
  have lo: "0 \<le> binade ?x"
  proof (rule ccontr)
    assume "\<not> 0 \<le> binade ?x"
    then have "binade ?x + 1 \<le> 0" by simp
    then have "(2::real) powi (binade ?x + 1) \<le> 2 powi 0"
      by (intro power_int_increasing) simp_all
    with binade_bounds(2) [OF x0] x1 show False by simp
  qed
  have hi: "binade ?x \<le> 52"
  proof (rule ccontr)
    assume "\<not> binade ?x \<le> 52"
    then have "53 \<le> binade ?x" by simp
    then have "(2::real) powi 53 \<le> 2 powi binade ?x"
      by (intro power_int_increasing) simp_all
    with binade_bounds(1) [OF x0] x53 show False by simp
  qed
  let ?k = "nat (52 - binade ?x)"
  have e: "max (binade ?x) (- 1022) - 52 = - int ?k" using lo hi by simp
  have u: "(2::real) powi (- int ?k) = 1 / 2 ^ ?k"
    by (simp only: power_int_minus power_int_of_nat inverse_eq_divide)
  have q: "?x / (1 / 2 ^ ?k) = of_int (n * 2 ^ ?k)" by simp
  have r: "of_int (round_half_even (?x / (1 / 2 ^ ?k))) * (1 / 2 ^ ?k) = ?x"
    unfolding q round_half_even_of_int by simp
  have "(2::real) ^ 53 \<le> 2 ^ 1024" by (intro power_increasing) simp_all
  with x53 have "\<not> (2::real) ^ 1024 \<le> \<bar>?x\<bar>" by linarith
  then show ?thesis
    unfolding float64_round_unfold [OF x0] e u r by (simp only: if_False)
qed

lemma binade_unique:
  assumes "x \<noteq> 0" and lo: "2 powi e \<le> \<bar>x\<bar>" and hi: "\<bar>x\<bar> < 2 powi (e + 1)"
  shows "binade x = e"
proof -
  have a: "binade x < e + 1"
  proof (rule ccontr)
    assume "\<not> binade x < e + 1"
    then have "e + 1 \<le> binade x" by simp
    then have "(2::real) powi (e + 1) \<le> 2 powi binade x"
      by (intro power_int_increasing) simp_all
    with binade_bounds(1) [OF assms(1)] hi show False by linarith
  qed
  have b: "e < binade x + 1"
  proof (rule ccontr)
    assume "\<not> e < binade x + 1"
    then have "binade x + 1 \<le> e" by simp
    then have "(2::real) powi (binade x + 1) \<le> 2 powi e"
      by (intro power_int_increasing) simp_all
    with binade_bounds(2) [OF assms(1)] lo show False by linarith
  qed
  from a b show ?thesis by simp
qed

lemma float64_round_at:
  assumes "x \<noteq> 0" and "2 powi e \<le> \<bar>x\<bar>" and "\<bar>x\<bar> < 2 powi (e + 1)" and "- 1022 \<le> e"
  shows "float64_round x =
     (if (2::real) ^ 1024 \<le> \<bar>real_of_int (round_half_even (x / 2 powi (e - 52))) * 2 powi (e - 52)\<bar>
      then None
      else Some (real_of_int (round_half_even (x / 2 powi (e - 52))) * 2 powi (e - 52)))"
proof -
  have "binade x = e" using assms(1-3) by (rule binade_unique)
  with assms(4) have "max (binade x) (- 1022) = e" by simp
  then show ?thesis unfolding float64_round_unfold [OF assms(1)] by simp
qed

lemma py_floordiv_steps_overflow:
  assumes "wx \<noteq> 0"
    and "\<not> (c_fmod vx wx \<noteq> 0 \<and> ((wx < 0) \<noteq> (c_fmod vx wx < 0)))"
    and "float64_round (vx - c_fmod vx wx) = Some y"
    and "float64_round (y / wx) = None"
  shows "py_floordiv vx wx = Inr None"
  unfolding py_floordiv_def Let_def f64_div_def f64_sub_def f64_add_def
    if_not_P [OF assms(1)] if_not_P [OF assms(2)] assms(3) option.case assms(4)
  by simp


subsection \<open>Floor division of floats\<close>

text \<open>
  For a normal positive divisor, a dividend below \<open>2\<^sup>1\<^sup>0\<^sup>2\<^sup>3\<close> and a quotient whose floor is
  at most \<open>2\<^sup>5\<^sup>0\<close>, the two roundings move the quotient by less than a half, and
  \<^verbatim>\<open>//\<close> is the floor of the exact quotient.
\<close>

lemma py_floordiv_steps:
  assumes "wx \<noteq> 0"
    and "\<not> (c_fmod vx wx \<noteq> 0 \<and> ((wx < 0) \<noteq> (c_fmod vx wx < 0)))"
    and "float64_round (vx - c_fmod vx wx) = Some y"
    and "float64_round (y / wx) = Some d"
    and "float64_round (d - of_int \<lfloor>d\<rfloor>) = Some s"
  shows "py_floordiv vx wx =
           Inr (if d \<noteq> 0
                then (if 1 / 2 < s then float64_round (of_int \<lfloor>d\<rfloor> + 1) else Some (of_int \<lfloor>d\<rfloor>))
                else Some 0)"
  unfolding py_floordiv_def Let_def f64_div_def f64_sub_def f64_add_def
    if_not_P [OF assms(1)] if_not_P [OF assms(2)] assms(3) option.case assms(4) assms(5)
  by simp

lemma tiny_powers:
  "(2::real) powi (- 1022) \<le> 1 / 2" "(2::real) powi (- 1075) < 1 / 8"
  by (simp_all add: power_int_minus field_simps)

lemma py_floordiv_exact:
  assumes wx: "2 powi (- 1022) \<le> wx" and vx0: "0 \<le> vx" and vx1: "vx < 2 ^ 1023"
    and q50: "\<lfloor>vx / wx\<rfloor> \<le> 2 ^ 50"
  shows "py_floordiv vx wx = Inr (Some (of_int \<lfloor>vx / wx\<rfloor>))"
proof -
  let ?q = "\<lfloor>vx / wx\<rfloor>"
  have wpos: "0 < wx"
    using wx zero_less_power_int [of "2::real" "- 1022"] by linarith
  have w0: "wx \<noteq> 0" using wpos by simp
  have quot0: "0 \<le> vx / wx" using vx0 wpos by simp
  then have q0: "0 \<le> ?q" by simp
  have rem: "c_fmod vx wx = vx - of_int ?q * wx"
    using quot0 by (simp add: c_fmod_def trunc_nonneg)
  have "of_int ?q * wx \<le> (vx / wx) * wx"
    using wpos by (intro mult_right_mono) simp_all
  also have "\<dots> = vx" using wpos by simp
  finally have qw: "of_int ?q * wx \<le> vx" .
  have cond: "\<not> (c_fmod vx wx \<noteq> 0 \<and> ((wx < 0) \<noteq> (c_fmod vx wx < 0)))"
    using qw wpos unfolding rem by simp
  have diff: "vx - c_fmod vx wx = of_int ?q * wx" unfolding rem by simp
  have qr: "real_of_int ?q \<le> 2 ^ 50"
  proof -
    have "real_of_int ?q \<le> real_of_int (2 ^ 50)" using q50 by (simp only: of_int_le_iff)
    then show ?thesis by simp
  qed
  show ?thesis
  proof (cases "?q = 0")
    case True
    have 1: "float64_round (vx - c_fmod vx wx) = Some 0"
      unfolding diff True by (simp add: float64_round_def)
    have 2: "float64_round (0 / wx) = Some 0" by (simp add: float64_round_def)
    have 3: "float64_round (0 - of_int \<lfloor>0::real\<rfloor>) = Some 0" by (simp add: float64_round_def)
    from py_floordiv_steps [OF w0 cond 1 2 3] True show ?thesis by simp
  next
    case False
    with q0 have q1: "1 \<le> real_of_int ?q" by linarith
    let ?y0 = "of_int ?q * wx"
    have y0abs: "\<bar>?y0\<bar> = of_int ?q * wx" using wpos q1 by (simp add: abs_mult)
    have "1 * wx \<le> of_int ?q * wx" using q1 wpos by (intro mult_right_mono) simp_all
    then have y0lo: "2 powi (- 1022) \<le> \<bar>?y0\<bar>"
      using wx unfolding y0abs by linarith
    have y0hi: "\<bar>?y0\<bar> < 2 ^ 1023"
      using qw vx1 unfolding y0abs by linarith
    from float64_round_normal [OF y0lo y0hi] obtain y where
      y: "float64_round ?y0 = Some y" and ye: "\<bar>y - ?y0\<bar> \<le> \<bar>?y0\<bar> / 2 ^ 53" by blast
    have ze: "\<bar>y / wx - of_int ?q\<bar> \<le> of_int ?q / 2 ^ 53"
    proof -
      have "y / wx - of_int ?q = (y - ?y0) / wx" using wpos by (simp add: field_simps)
      then have "\<bar>y / wx - of_int ?q\<bar> = \<bar>y - ?y0\<bar> / wx" using wpos by simp
      also have "\<dots> \<le> (of_int ?q * wx / 2 ^ 53) / wx"
        using ye wpos unfolding y0abs by (intro divide_right_mono) simp_all
      also have "\<dots> = of_int ?q / 2 ^ 53" using wpos by simp
      finally show ?thesis .
    qed
    have s53: "real_of_int ?q / 2 ^ 53 \<le> 1 / 8"
      using qr by (simp add: field_simps)
    have zlo: "7 / 8 \<le> y / wx" using ze s53 q1 by linarith
    have zhi: "y / wx \<le> 2 * of_int ?q"
    proof -
      have "real_of_int ?q / 2 ^ 53 \<le> of_int ?q" using q1 by (simp add: field_simps)
      with ze show ?thesis by linarith
    qed
    have "0 \<le> y / wx" using zlo by linarith
    then have zabs: "\<bar>y / wx\<bar> = y / wx" by (rule abs_of_nonneg)
    have z1: "2 powi (- 1022) \<le> \<bar>y / wx\<bar>"
      using tiny_powers(1) zlo unfolding zabs by linarith
    have "(2::real) * 2 ^ 50 < 2 ^ 1023"
    proof -
      have "(2::real) ^ 51 < 2 ^ 1023" by (intro power_strict_increasing) simp_all
      then show ?thesis by simp
    qed
    with zhi qr have z2: "\<bar>y / wx\<bar> < 2 ^ 1023" unfolding zabs by linarith
    from float64_round_normal [OF z1 z2] obtain d where
      d: "float64_round (y / wx) = Some d" and de: "\<bar>d - y / wx\<bar> \<le> \<bar>y / wx\<bar> / 2 ^ 53" by blast
    have "\<bar>y / wx\<bar> / 2 ^ 53 \<le> 2 * of_int ?q / 2 ^ 53"
      unfolding zabs using zhi by (intro divide_right_mono) simp_all
    with de have de': "\<bar>d - y / wx\<bar> \<le> 2 * (of_int ?q / 2 ^ 53)" by simp
    have dq: "\<bar>d - of_int ?q\<bar> \<le> 3 / 8" using de' ze s53 by linarith
    have dpos: "d \<noteq> 0" using dq q1 by linarith
    have flo: "?q - 1 \<le> \<lfloor>d\<rfloor>"
    proof -
      have "real_of_int ?q - 1 \<le> d" using dq by linarith
      then have "real_of_int (?q - 1) \<le> d" by simp
      then show ?thesis by (simp only: le_floor_iff)
    qed
    have fhi: "\<lfloor>d\<rfloor> \<le> ?q"
    proof -
      have "d < real_of_int ?q + 1" using dq by linarith
      then have "d < real_of_int (?q + 1)" by simp
      then have "\<lfloor>d\<rfloor> < ?q + 1" by (simp only: floor_less_iff)
      then show ?thesis by simp
    qed
    let ?x = "d - of_int \<lfloor>d\<rfloor>"
    have x0: "0 \<le> ?x" and x1: "?x < 1" by linarith+
    have "\<bar>?x\<bar> < 2 ^ 1023"
    proof -
      have "(1::real) \<le> 2 ^ 1023" by (rule one_le_power) simp
      with x0 x1 show ?thesis by simp
    qed
    from float64_round_error [OF this] obtain s where
      s: "float64_round ?x = Some s"
      and se: "\<bar>s - ?x\<bar> \<le> max (\<bar>?x\<bar> / 2 ^ 53) (2 powi (- 1075))" by blast
    have "\<bar>?x\<bar> / 2 ^ 53 < 1 / 8"
    proof -
      have "\<bar>?x\<bar> / 2 ^ 53 \<le> 1 / 2 ^ 53" using x0 x1 by (simp add: divide_right_mono)
      also have "\<dots> < (1::real) / 8" by simp
      finally show ?thesis .
    qed
    with tiny_powers(2) have "max (\<bar>?x\<bar> / 2 ^ 53) (2 powi (- 1075)) < 1 / 8"
      by (simp only: max_less_iff_conj)
    with se have se': "\<bar>s - ?x\<bar> < 1 / 8" by linarith
    have steps: "py_floordiv vx wx =
           Inr (if 1 / 2 < s then float64_round (of_int \<lfloor>d\<rfloor> + 1) else Some (of_int \<lfloor>d\<rfloor>))"
      using py_floordiv_steps [OF w0 cond _ d s] y dpos unfolding diff by simp
    from flo fhi consider "\<lfloor>d\<rfloor> = ?q" | "\<lfloor>d\<rfloor> = ?q - 1" by linarith
    then show ?thesis
    proof cases
      case 1
      have "?x \<le> 3 / 8" using dq unfolding 1 by linarith
      with se' have "\<not> 1 / 2 < s" by linarith
      with steps show ?thesis unfolding 1 by simp
    next
      case 2
      have "real_of_int \<lfloor>d\<rfloor> = of_int ?q - 1" unfolding 2 by simp
      then have "5 / 8 \<le> ?x" using dq by linarith
      with se' have sg: "1 / 2 < s" by linarith
      have "\<bar>?q\<bar> < 2 ^ 53" using q0 q50 by simp
      then have "float64_round (of_int ?q) = Some (of_int ?q)" by (rule float64_round_of_int)
      moreover have "real_of_int \<lfloor>d\<rfloor> + 1 = of_int ?q" unfolding 2 by simp
      ultimately show ?thesis using steps sg by simp
    qed
  qed
qed

subsection \<open>The constructor and the setter in closed form\<close>

lemma py_floordiv_zero: "py_floordiv vx 0 = Inl ZeroDivisionError"
  by (simp add: py_floordiv_def)

lemma py_floordiv_nonzero: "wx \<noteq> 0 \<Longrightarrow> \<exists>r. py_floordiv vx wx = Inr r"
  by (simp add: py_floordiv_def Let_def)

lemma init_finite:
  "py_floordiv ob ib = Inr (Some q) \<Longrightarrow> init ib ob sr =
     Inr \<lparr>input_bw = ib, output_bw = ob, samp_rate = sr,
          num_copies = max 1 (trunc q),
          shift_spacing = ob / of_int (max 1 (trunc q)), sample_idx = 0\<rparr>"
  by (simp add: init_def py_int_def py_truediv_def Let_def)

lemma init_overflow: "py_floordiv ob ib = Inr None \<Longrightarrow> init ib ob sr = Inl OverflowError"
  by (simp add: init_def py_int_def)

lemma init_zero: "init 0 ob sr = Inl ZeroDivisionError"
  by (simp add: init_def py_floordiv_zero)

lemma init_returns:
  assumes "init ib ob sr = Inr s"
  shows "\<exists>q. py_floordiv ob ib = Inr (Some q) \<and>
           s = \<lparr>input_bw = ib, output_bw = ob, samp_rate = sr,
                 num_copies = max 1 (trunc q),
                 shift_spacing = ob / of_int (max 1 (trunc q)), sample_idx = 0\<rparr>"
proof (cases "py_floordiv ob ib")
  case (Inl e)
  with assms show ?thesis by (simp add: init_def)
next
  case (Inr r)
  show ?thesis
  proof (cases r)
    case None
    with Inr assms show ?thesis by (simp add: init_overflow)
  next
    case (Some q)
    with Inr assms show ?thesis by (simp add: init_finite)
  qed
qed

lemma set_input_bandwidth_finite:
  "0 < b \<Longrightarrow> py_floordiv (output_bw self) b = Inr (Some q) \<Longrightarrow>
   set_input_bandwidth self b =
     Inr (self\<lparr>input_bw := b, num_copies := max 1 (trunc q),
               shift_spacing := output_bw self / of_int (max 1 (trunc q))\<rparr>,
          [Bandwidth_updated b (max 1 (trunc q))
             (output_bw self / of_int (max 1 (trunc q)))])"
  by (simp add: set_input_bandwidth_def py_int_def py_truediv_def Let_def)

lemma set_input_bandwidth_overflow:
  "0 < b \<Longrightarrow> py_floordiv (output_bw self) b = Inr None \<Longrightarrow>
   set_input_bandwidth self b = Inl (OverflowError, self\<lparr>input_bw := b\<rparr>)"
  by (simp add: set_input_bandwidth_def py_int_def Let_def)

lemma set_input_bandwidth_nonpos:
  "b \<le> 0 \<Longrightarrow> set_input_bandwidth self b = Inr (self, [])"
  by (simp add: set_input_bandwidth_def)

lemma set_input_bandwidth_outcomes:
  assumes "0 < b"
  shows "(\<exists>q. py_floordiv (output_bw self) b = Inr (Some q) \<and>
            set_input_bandwidth self b =
              Inr (self\<lparr>input_bw := b, num_copies := max 1 (trunc q),
                        shift_spacing := output_bw self / of_int (max 1 (trunc q))\<rparr>,
                   [Bandwidth_updated b (max 1 (trunc q))
                      (output_bw self / of_int (max 1 (trunc q)))]))
       \<or> (py_floordiv (output_bw self) b = Inr None \<and>
            set_input_bandwidth self b = Inl (OverflowError, self\<lparr>input_bw := b\<rparr>))"
proof -
  from assms have "b \<noteq> 0" by simp
  from py_floordiv_nonzero [OF this, of "output_bw self"]
  obtain r where r: "py_floordiv (output_bw self) b = Inr r" by blast
  show ?thesis
  proof (cases r)
    case None
    with r assms show ?thesis by (simp add: set_input_bandwidth_overflow)
  next
    case (Some q)
    with r assms show ?thesis by (simp add: set_input_bandwidth_finite)
  qed
qed

lemma init_exact:
  assumes "2 powi (- 1022) \<le> ib" and "0 \<le> ob" and "ob < 2 ^ 1023" and "\<lfloor>ob / ib\<rfloor> \<le> 2 ^ 50"
  shows "init ib ob sr =
     Inr \<lparr>input_bw = ib, output_bw = ob, samp_rate = sr,
          num_copies = max 1 \<lfloor>ob / ib\<rfloor>,
          shift_spacing = ob / of_int (max 1 \<lfloor>ob / ib\<rfloor>), sample_idx = 0\<rparr>"
  using init_finite [OF py_floordiv_exact [OF assms]] by (simp add: trunc_of_int)

lemma set_input_bandwidth_exact:
  assumes "2 powi (- 1022) \<le> b" and "0 \<le> output_bw self" and "output_bw self < 2 ^ 1023"
    and "\<lfloor>output_bw self / b\<rfloor> \<le> 2 ^ 50"
  shows "set_input_bandwidth self b =
     Inr (self\<lparr>input_bw := b, num_copies := max 1 \<lfloor>output_bw self / b\<rfloor>,
               shift_spacing := output_bw self / of_int (max 1 \<lfloor>output_bw self / b\<rfloor>)\<rparr>,
          [Bandwidth_updated b (max 1 \<lfloor>output_bw self / b\<rfloor>)
             (output_bw self / of_int (max 1 \<lfloor>output_bw self / b\<rfloor>))])"
proof -
  have "0 < b" using assms(1) zero_less_power_int [of "2::real" "- 1022"] by linarith
  from set_input_bandwidth_finite [OF this py_floordiv_exact [OF assms]]
  show ?thesis by (simp add: trunc_of_int)
qed

lemma exact_small:
  "(2::real) powi (- 1022) \<le> 1" "(1::real) < 2 ^ 1023"
  using tiny_powers(1) by simp_all


lemma init_3_10_1:
  "init 3 10 1 = Inr \<lparr>input_bw = 3, output_bw = 10, samp_rate = 1, num_copies = 3,
                      shift_spacing = 10 / 3, sample_idx = 0\<rparr>"
  using init_exact [of 3 10 1] tiny_powers(1) by simp

subsection \<open>Lengths\<close>

lemma length_np_true_divide: "length (np_true_divide xs d) = length xs"
  by (simp add: np_true_divide_def)

lemma length_np_exp_mixer: "length (np_exp_mixer f t) = length t"
  by (simp add: np_exp_mixer_def)

lemma length_np_multiply: "length (np_multiply in0 m) = min (length in0) (length m)"
  by (simp add: np_multiply_def)

lemma length_time_indices: "length (time_indices self n) = n"
  by (simp add: time_indices_def np_arange_def)


lemma copy_step_same_length:
  assumes "length t = length in0" and "length out = length in0"
  shows "copy_step self in0 t out i =
           Inr (map2 np_add out (np_multiply in0 (np_exp_mixer (freq_shift self i) t)))"
  using assms
  by (simp add: copy_step_def np_iadd_def length_np_multiply length_np_exp_mixer)

lemma copies_loop_length:
  assumes "length t = length in0" and "length out = length in0"
  shows "\<exists>out'. copies_loop self in0 t js out = Inr out' \<and> length out' = length in0"
  using assms
proof (induction js arbitrary: out)
  case Nil
  then show ?case by simp
next
  case (Cons i js)
  let ?o = "map2 np_add out (np_multiply in0 (np_exp_mixer (freq_shift self i) t))"
  have "length ?o = length in0"
    using Cons.prems by (simp add: length_np_multiply length_np_exp_mixer)
  with Cons.IH [of ?o] Cons.prems show ?case
    by (simp add: copy_step_same_length)
qed

lemma np_assign_zeros:
  "length out0 = n \<Longrightarrow> np_assign out0 (np_zeros n) = Inr (np_zeros n)"
  by (simp add: np_assign_def np_zeros_def)

lemma work_length:
  assumes "length out0 = length in0"
  shows "\<exists>out. work self in0 out0 =
           Inr (out, length in0, self\<lparr>sample_idx := sample_idx self + int (length in0)\<rparr>)
         \<and> length out = length in0"
proof -
  let ?t = "np_true_divide (time_indices self (length in0)) (samp_rate self)"
  have lt: "length ?t = length in0"
    by (simp add: length_np_true_divide length_time_indices)
  have lz: "length (np_zeros (length in0)) = length in0"
    by (simp add: np_zeros_def)
  from copies_loop_length [OF lt lz]
  obtain out where "copies_loop self in0 ?t (py_range (num_copies self)) (np_zeros (length in0)) = Inr out"
    and "length out = length in0" by blast
  then show ?thesis
    using assms by (simp add: work_def np_assign_zeros Let_def)
qed

subsection \<open>The loop over the copies in closed form\<close>







subsection \<open>Scaling the input block\<close>

lemma np_add_scale:
  "np_add (map_option (\<lambda>v. a * v) p) (map_option (\<lambda>c. (a * x) * c) m)
     = map_option (\<lambda>v. a * v) (np_add p (map_option (\<lambda>c. x * c) m))"
  by (cases p; cases m) (simp_all add: np_add_def distrib_left mult.assoc)

lemma copy_step_scale:
  assumes lt: "length t = length in0" and lo: "length out = length in0"
  shows "copy_step self (map (\<lambda>v. a * v) in0) t (map (map_option (\<lambda>v. a * v)) out) i =
           Inr (map (map_option (\<lambda>v. a * v))
                  (map2 np_add out (np_multiply in0 (np_exp_mixer (freq_shift self i) t))))"
proof -
  let ?m = "np_exp_mixer (freq_shift self i) t"
  have lm: "length ?m = length in0"
    using lt by (simp add: length_np_exp_mixer)
  have "map2 np_add (map (map_option (\<lambda>v. a * v)) out) (np_multiply (map (\<lambda>v. a * v) in0) ?m)
        = map (map_option (\<lambda>v. a * v)) (map2 np_add out (np_multiply in0 ?m))"
    using lm lo
    by (intro nth_equalityI) (simp_all add: np_multiply_def np_add_scale)
  moreover have "copy_step self (map (\<lambda>v. a * v) in0) t (map (map_option (\<lambda>v. a * v)) out) i
        = Inr (map2 np_add (map (map_option (\<lambda>v. a * v)) out)
                 (np_multiply (map (\<lambda>v. a * v) in0) ?m))"
    using lt lo by (intro copy_step_same_length) simp_all
  ultimately show ?thesis by simp
qed

lemma copies_loop_scale:
  assumes lt: "length t = length in0" and lo: "length out = length in0"
  shows "\<exists>out'. copies_loop self in0 t js out = Inr out' \<and> length out' = length in0 \<and>
           copies_loop self (map (\<lambda>v. a * v) in0) t js (map (map_option (\<lambda>v. a * v)) out)
             = Inr (map (map_option (\<lambda>v. a * v)) out')"
  using lo
proof (induction js arbitrary: out)
  case Nil
  then show ?case by simp
next
  case (Cons i js)
  let ?o = "map2 np_add out (np_multiply in0 (np_exp_mixer (freq_shift self i) t))"
  have l: "length ?o = length in0"
    using Cons.prems lt by (simp add: length_np_multiply length_np_exp_mixer)
  from Cons.IH [OF l] obtain out' where
    1: "copies_loop self in0 t js ?o = Inr out'" and
    2: "length out' = length in0" and
    3: "copies_loop self (map (\<lambda>v. a * v) in0) t js (map (map_option (\<lambda>v. a * v)) ?o)
          = Inr (map (map_option (\<lambda>v. a * v)) out')"
    by blast
  have s1: "copy_step self in0 t out i = Inr ?o"
    using lt Cons.prems by (rule copy_step_same_length)
  have s2: "copy_step self (map (\<lambda>v. a * v) in0) t (map (map_option (\<lambda>v. a * v)) out) i
              = Inr (map (map_option (\<lambda>v. a * v)) ?o)"
    using lt Cons.prems by (rule copy_step_scale)
  show ?case
    unfolding copies_loop.simps s1 s2 sum.case using 1 2 3 by blast
qed

lemma np_zeros_scale: "map (map_option (\<lambda>v. a * v)) (np_zeros n) = np_zeros n"
  by (simp add: np_zeros_def)

lemma work_scale:
  assumes len: "length out0 = length x"
  shows "\<exists>out r self'. work self x out0 = Inr (out, r, self') \<and>
           work self (map (\<lambda>v. a * v) x) out0 = Inr (map (map_option (\<lambda>v. a * v)) out, r, self')"
proof -
  let ?n = "length x"
  let ?t = "np_true_divide (time_indices self ?n) (samp_rate self)"
  have lt: "length ?t = ?n"
    by (simp add: length_np_true_divide length_time_indices)
  have lz: "length (np_zeros ?n) = ?n"
    by (simp add: np_zeros_def)
  from copies_loop_scale [OF lt lz, of self "py_range (num_copies self)" a]
  obtain out' where
    1: "copies_loop self x ?t (py_range (num_copies self)) (np_zeros ?n) = Inr out'" and
    2: "length out' = ?n" and
    3: "copies_loop self (map (\<lambda>v. a * v) x) ?t (py_range (num_copies self)) (np_zeros ?n)
          = Inr (map (map_option (\<lambda>v. a * v)) out')"
    unfolding np_zeros_scale by blast
  have za: "np_assign out0 (np_zeros ?n) = Inr (np_zeros ?n)"
    using len by (rule np_assign_zeros)
  have "work self x out0 = Inr (out', ?n, self\<lparr>sample_idx := sample_idx self + int ?n\<rparr>)"
    unfolding work_def Let_def za sum.case 1 2 ..
  moreover have "work self (map (\<lambda>v. a * v) x) out0
      = Inr (map (map_option (\<lambda>v. a * v)) out', ?n, self\<lparr>sample_idx := sample_idx self + int ?n\<rparr>)"
    unfolding work_def Let_def length_map za sum.case 3 by (simp add: 2)
  ultimately show ?thesis by blast
qed

subsection \<open>The replication plan on reachable states\<close>

lemma init_plan:
  assumes "init ib ob sr = Inr s"
  shows "1 \<le> num_copies s \<and> shift_spacing s = output_bw s / of_int (num_copies s)"
  using init_returns [OF assms] by auto

lemma set_input_bandwidth_plan:
  assumes "set_input_bandwidth s b = Inr (s', ns)"
    and "1 \<le> num_copies s \<and> shift_spacing s = output_bw s / of_int (num_copies s)"
  shows "1 \<le> num_copies s' \<and> shift_spacing s' = output_bw s' / of_int (num_copies s')"
proof (cases "0 < b")
  case True
  from set_input_bandwidth_outcomes [OF True, of s] assms show ?thesis by auto
next
  case False
  with assms show ?thesis by (simp add: set_input_bandwidth_nonpos)
qed

lemma set_input_bandwidth_raised:
  assumes "set_input_bandwidth s b = Inl (e, s')"
  shows "0 < b \<and> e = OverflowError \<and> s' = s\<lparr>input_bw := b\<rparr>"
proof (cases "0 < b")
  case True
  from set_input_bandwidth_outcomes [OF True, of s] assms True show ?thesis by auto
next
  case False
  with assms show ?thesis by (simp add: set_input_bandwidth_nonpos)
qed

lemma work_state:
  assumes "work s in0 out0 = Inr (out, r, s')"
  shows "s' = s\<lparr>sample_idx := sample_idx s + int (length in0)\<rparr>"
  using assms by (auto simp: work_def Let_def split: sum.splits)

lemma reachable_plan:
  "reachable s \<Longrightarrow> 1 \<le> num_copies s \<and> shift_spacing s = output_bw s / of_int (num_copies s)"
proof (induction rule: reachable.induct)
  case (constructed ib ob sr s)
  then show ?case by (rule init_plan)
next
  case (updated s b s' ns)
  then show ?case using set_input_bandwidth_plan by blast
next
  case (update_raised s b e s')
  then show ?case by (auto dest: set_input_bandwidth_raised)
next
  case (processed s in0 out0 out r s')
  then show ?case by (auto dest: work_state)
qed

subsection \<open>Successive calls and their time vectors\<close>




subsection \<open>Runs of the model on concrete buffers\<close>

text \<open>
  With a sample rate of 0 every element of the time vector is non-finite, and so is
  every output sample. With a buffer \<open>out0\<close> longer than a one-sample input block the
  block is broadcast and \<^verbatim>\<open>work\<close> returns the length of the buffer; other
  mismatches raise \<^verbatim>\<open>ValueError\<close>. The host scheduler of a sync block passes
  buffers of equal length.
\<close>

lemmas model_defs = work_def Let_def np_assign_def np_zeros_def time_indices_def np_arange_def
  np_true_divide_def py_range_def copy_step_def np_exp_mixer_def np_multiply_def np_iadd_def
  np_add_def freq_shift_def

lemma work_zero_rate_example:
  "work \<lparr>input_bw = 3, output_bw = 10, samp_rate = 0, num_copies = 3,
           shift_spacing = 10 / 3, sample_idx = 7\<rparr> [1, \<i>] [None, Some 5]
   = Inr ([None, None], 2, \<lparr>input_bw = 3, output_bw = 10, samp_rate = 0, num_copies = 3,
           shift_spacing = 10 / 3, sample_idx = 9\<rparr>)"
  by (simp add: model_defs upto.simps)

lemma work_broadcast_example:
  "work \<lparr>input_bw = 1, output_bw = 1, samp_rate = 1, num_copies = 1,
           shift_spacing = 1, sample_idx = 0\<rparr> [\<i>] [None, None, None]
   = Inr ([Some \<i>, Some \<i>, Some \<i>], 3, \<lparr>input_bw = 1, output_bw = 1, samp_rate = 1, num_copies = 1,
           shift_spacing = 1, sample_idx = 1\<rparr>)"
  by (simp add: model_defs upto.simps)

lemma work_mismatch_example:
  "work \<lparr>input_bw = 1, output_bw = 1, samp_rate = 1, num_copies = 1,
           shift_spacing = 1, sample_idx = 0\<rparr> [\<i>, 1] [None, None, None]
   = Inl ValueError"
  by (simp add: model_defs upto.simps)




lemma float64_round_overflow: "float64_round (2 ^ 1074) = None"
  by (subst float64_round_at [where e = 1074]) (simp_all add: round_half_even_def)

lemma py_floordiv_overflow_example: "py_floordiv 1 (1 / 2 ^ 1074) = Inr None"
proof -
  have f: "c_fmod 1 (1 / 2 ^ 1074) = 0" by (simp add: c_fmod_def trunc_def)
  have 1: "float64_round (1 - c_fmod 1 (1 / 2 ^ 1074)) = Some 1"
    unfolding f using float64_round_of_int [of 1] by simp
  have 2: "float64_round (1 / (1 / 2 ^ 1074)) = None"
    using float64_round_overflow by simp
  have w: "(1::real) / 2 ^ 1074 \<noteq> 0" by simp
  have c: "\<not> (c_fmod 1 (1 / 2 ^ 1074) \<noteq> 0
            \<and> (((1::real) / 2 ^ 1074 < 0) \<noteq> (c_fmod 1 (1 / 2 ^ 1074) < 0)))"
    unfolding f by simp
  show ?thesis by (rule py_floordiv_steps_overflow [OF w c 1 2])
qed

lemma float64_round_tenth_times_9: "float64_round (32425917317067573 / 2 ^ 55) = Some (8106479329266893 / 2 ^ 53)"
  by (subst float64_round_at [where e = "- 1"]) (simp_all add: round_half_even_def power_int_minus)

lemma float64_round_tenth_quotient:
  "float64_round (8106479329266893 / 2 ^ 53 / (3602879701896397 / 2 ^ 55)) = Some 9"
  by (subst float64_round_at [where e = 3]) (simp_all add: round_half_even_def power_int_minus)

lemma py_floordiv_tenth_example:
  "py_floordiv 1 (3602879701896397 / 2 ^ 55) = Inr (Some 9)"
proof -
  have f: "c_fmod 1 (3602879701896397 / 2 ^ 55) = 3602879701896395 / 2 ^ 55"
    by (simp add: c_fmod_def trunc_def)
  have 1: "float64_round (1 - c_fmod 1 (3602879701896397 / 2 ^ 55)) = Some (8106479329266893 / 2 ^ 53)"
    unfolding f using float64_round_tenth_times_9 by simp
  have 3: "float64_round (9 - of_int \<lfloor>9::real\<rfloor>) = Some 0"
    by (simp add: float64_round_def)
  have w: "(3602879701896397::real) / 2 ^ 55 \<noteq> 0" by simp
  have c: "\<not> (c_fmod 1 (3602879701896397 / 2 ^ 55) \<noteq> 0
            \<and> (((3602879701896397::real) / 2 ^ 55 < 0)
                 \<noteq> (c_fmod 1 (3602879701896397 / 2 ^ 55) < 0)))"
    unfolding f by simp
  have "py_floordiv 1 (3602879701896397 / 2 ^ 55) =
          Inr (if (9::real) \<noteq> 0
               then (if 1 / 2 < (0::real) then float64_round (of_int \<lfloor>9::real\<rfloor> + 1)
                     else Some (of_int \<lfloor>9::real\<rfloor>))
               else Some 0)"
    by (rule py_floordiv_steps [OF w c 1 float64_round_tenth_quotient 3])
  then show ?thesis by simp
qed



lemma set_input_bandwidth_overflow_example:
  "set_input_bandwidth \<lparr>input_bw = 1, output_bw = 1, samp_rate = 1, num_copies = 1,
                        shift_spacing = 1, sample_idx = 0\<rparr> (1 / 2 ^ 1074)
   = Inl (OverflowError, \<lparr>input_bw = 1 / 2 ^ 1074, output_bw = 1, samp_rate = 1,
                           num_copies = 1, shift_spacing = 1, sample_idx = 0\<rparr>)"
proof -
  let ?s = "\<lparr>input_bw = 1, output_bw = 1, samp_rate = 1, num_copies = 1,
             shift_spacing = 1, sample_idx = 0\<rparr>"
  have p: "(0::real) < 1 / 2 ^ 1074" by simp
  have q: "py_floordiv (output_bw ?s) (1 / 2 ^ 1074) = Inr None"
    using py_floordiv_overflow_example by simp
  from set_input_bandwidth_overflow [OF p q] show ?thesis by simp
qed

lemma init_tenth_example:
  "init (3602879701896397 / 2 ^ 55) 1 1 =
     Inr \<lparr>input_bw = 3602879701896397 / 2 ^ 55, output_bw = 1, samp_rate = 1,
          num_copies = 9, shift_spacing = 1 / 9, sample_idx = 0\<rparr>"
  using init_finite [OF py_floordiv_tenth_example, of 1] by (simp add: trunc_def)

section \<open>The claims\<close>








text \<open>
  C4. Given an output buffer as long as the input block (the host's guarantee),
  \<^verbatim>\<open>work\<close> raises nothing, returns an output block as long as the input block, and its
  return value is that length; for every state of the block (any configuration, any
  cursor) and every block length, 0 included.
\<close>

theorem length_preservation:
  assumes "length out0 = length in0"
  shows "\<exists>out self'. work self in0 out0 = Inr (out, length in0, self') \<and>
           length out = length in0"
  using work_length [OF assms] by blast

theorem length_preservation_witness:
  "length [None, Some 5] = length [1, \<i>] \<and>
   (\<exists>out self'. work \<lparr>input_bw = 3, output_bw = 10, samp_rate = 0, num_copies = 3,
           shift_spacing = 10 / 3, sample_idx = 7\<rparr> [1, \<i>] [None, Some 5] = Inr (out, 2, self') \<and>
           length out = 2)"
  using length_preservation [of "[None, Some 5]" "[1, \<i>]"
     "\<lparr>input_bw = 3, output_bw = 10, samp_rate = 0, num_copies = 3,
           shift_spacing = 10 / 3, sample_idx = 7\<rparr>"]
  by (simp add: numeral_2_eq_2)

text \<open>
  C5. \<^verbatim>\<open>set_input_bandwidth\<close> with a bandwidth \<open>\<le> 0\<close> raises nothing, prints nothing and
  returns the block as it was: \<^verbatim>\<open>input_bw\<close>, \<^verbatim>\<open>num_copies\<close>, \<^verbatim>\<open>shift_spacing\<close> and
  every other attribute are unchanged.
\<close>

theorem nonpositive_update_ignored:
  "b \<le> 0 \<Longrightarrow> set_input_bandwidth self b = Inr (self, [])"
  by (simp add: set_input_bandwidth_def)

theorem nonpositive_update_ignored_witness:
  "(-5::real) \<le> 0 \<and>
   set_input_bandwidth
     \<lparr>input_bw = 3, output_bw = 10, samp_rate = 1, num_copies = 3,
      shift_spacing = 10 / 3, sample_idx = 7\<rparr> (-5)
   = Inr (\<lparr>input_bw = 3, output_bw = 10, samp_rate = 1, num_copies = 3,
           shift_spacing = 10 / 3, sample_idx = 7\<rparr>, [])"
  using nonpositive_update_ignored [of "-5"
      "\<lparr>input_bw = 3, output_bw = 10, samp_rate = 1, num_copies = 3,
        shift_spacing = 10 / 3, sample_idx = 7\<rparr>"]
  by simp

text \<open>
  C6. After a construction and after a \<^verbatim>\<open>set_input_bandwidth\<close> with a positive argument
  (each returns whenever its floor division is finite), the shift spacing is the output
  bandwidth divided by the copy count just derived.
\<close>

theorem spacing_formula:
  "(py_floordiv ob ib = Inr (Some q) \<longrightarrow>
      (\<exists>s. init ib ob sr = Inr s \<and> output_bw s = ob \<and>
            num_copies s = max 1 (trunc q) \<and>
            shift_spacing s = output_bw s / of_int (num_copies s)))
   \<and> (0 < b \<and> py_floordiv (output_bw self) b = Inr (Some q') \<longrightarrow>
      (\<exists>s' ns. set_input_bandwidth self b = Inr (s', ns) \<and> output_bw s' = output_bw self \<and>
            num_copies s' = max 1 (trunc q') \<and>
            shift_spacing s' = output_bw s' / of_int (num_copies s')))
   \<and> (init ib ob sr = Inr s0 \<longrightarrow> shift_spacing s0 = output_bw s0 / of_int (num_copies s0))
   \<and> (0 < b \<and> set_input_bandwidth self b = Inr (s1, ns1) \<longrightarrow>
        shift_spacing s1 = output_bw s1 / of_int (num_copies s1))"
proof (intro conjI impI)
  assume "py_floordiv ob ib = Inr (Some q)"
  from init_finite [OF this, of sr]
  show "\<exists>s. init ib ob sr = Inr s \<and> output_bw s = ob \<and>
            num_copies s = max 1 (trunc q) \<and>
            shift_spacing s = output_bw s / of_int (num_copies s)"
    by simp
next
  assume "0 < b \<and> py_floordiv (output_bw self) b = Inr (Some q')"
  then have "0 < b" and "py_floordiv (output_bw self) b = Inr (Some q')" by simp_all
  from set_input_bandwidth_finite [OF this]
  show "\<exists>s' ns. set_input_bandwidth self b = Inr (s', ns) \<and> output_bw s' = output_bw self \<and>
            num_copies s' = max 1 (trunc q') \<and>
            shift_spacing s' = output_bw s' / of_int (num_copies s')"
    by simp
next
  assume "init ib ob sr = Inr s0"
  from init_returns [OF this]
  show "shift_spacing s0 = output_bw s0 / of_int (num_copies s0)" by auto
next
  assume a: "0 < b \<and> set_input_bandwidth self b = Inr (s1, ns1)"
  then have "0 < b" ..
  from set_input_bandwidth_outcomes [OF this, of self] a
  show "shift_spacing s1 = output_bw s1 / of_int (num_copies s1)" by auto
qed

theorem spacing_formula_witness:
  "py_floordiv 10 3 = Inr (Some 3) \<and> (0::real) < 4 \<and> py_floordiv 10 4 = Inr (Some 2)
   \<and> (\<exists>s. init 3 10 1 = Inr s \<and> num_copies s = 3 \<and> shift_spacing s = 10 / 3)
   \<and> (\<exists>s' ns. set_input_bandwidth
          \<lparr>input_bw = 3, output_bw = 10, samp_rate = 1, num_copies = 3,
           shift_spacing = 10 / 3, sample_idx = 0\<rparr> 4 = Inr (s', ns)
         \<and> num_copies s' = 2 \<and> shift_spacing s' = 5)"
proof -
  let ?s = "\<lparr>input_bw = 3, output_bw = 10, samp_rate = 1, num_copies = 3,
           shift_spacing = 10 / 3, sample_idx = 0\<rparr>"
  let ?s1 = "?s\<lparr>input_bw := 4, num_copies := 2, shift_spacing := 5\<rparr>"
  have h: "(2::real) powi (- 1022) \<le> 3" "(2::real) powi (- 1022) \<le> 4"
    using tiny_powers(1) by linarith+
  have f3: "py_floordiv 10 3 = Inr (Some 3)"
    using py_floordiv_exact [of 3 10] h by simp
  have f4: "py_floordiv 10 4 = Inr (Some 2)"
    using py_floordiv_exact [of 4 10] h by simp
  have i: "init 3 10 1 = Inr ?s" by (rule init_3_10_1)
  have u: "set_input_bandwidth ?s 4 = Inr (?s1, [Bandwidth_updated 4 2 5])"
    using set_input_bandwidth_exact [of 4 ?s] h by simp
  from spacing_formula [where ib = 3 and ob = 10 and sr = 1 and q = 3 and b = 4 and q' = 2
      and self = ?s and ?s0.0 = ?s and ?s1.0 = ?s1 and ?ns1.0 = "[Bandwidth_updated 4 2 5]"]
    f3 f4 i u
  show ?thesis by (simp add: trunc_def)
qed



text \<open>
  C8. For a fixed block state (configuration and cursor), scaling every input sample by
  a constant \<open>a\<close> scales every output sample by \<open>a\<close>; return value and new state are
  the same.
\<close>

theorem amplitude_linearity:
  assumes "length out0 = length x"
  shows "\<exists>y r self'. work self x out0 = Inr (y, r, self') \<and>
           work self (map (\<lambda>v. a * v) x) out0 = Inr (map (map_option (\<lambda>v. a * v)) y, r, self')"
  using work_scale [OF assms] by blast

theorem amplitude_linearity_witness:
  "length [None] = length [\<i>]
   \<and> work \<lparr>input_bw = 1, output_bw = 2, samp_rate = 1, num_copies = 2,
            shift_spacing = 1, sample_idx = 0\<rparr> (map (\<lambda>v. 3 * v) [\<i>]) [None]
       = Inr ([Some (6 * \<i>)], 1,
              \<lparr>input_bw = 1, output_bw = 2, samp_rate = 1, num_copies = 2,
               shift_spacing = 1, sample_idx = 1\<rparr>)"
proof -
  let ?s = "\<lparr>input_bw = 1, output_bw = 2, samp_rate = 1, num_copies = 2,
            shift_spacing = 1, sample_idx = 0\<rparr>"
  have h: "length [None :: complex option] = length [\<i>]" by simp
  have w: "work ?s [\<i>] [None] = Inr ([Some (2 * \<i>)], 1, ?s\<lparr>sample_idx := 1\<rparr>)"
    by (simp add: model_defs upto.simps)
  from amplitude_linearity [OF h, of ?s 3] w h show ?thesis by simp
qed

text \<open>
  C9. \<^verbatim>\<open>num_copies\<close> is an integer and at least 1: after construction (which returns
  whenever its floor division is finite, so the input bandwidth is not zero), after
  \<^verbatim>\<open>set_input_bandwidth\<close>, whether it returns or raises, and after \<^verbatim>\<open>work\<close> on a block
  where it is at least 1; hence in every reachable state.
\<close>

theorem num_copies_at_least_one:
  "(py_floordiv ob ib = Inr (Some q) \<longrightarrow> (\<exists>s. init ib ob sr = Inr s \<and> 1 \<le> num_copies s))
   \<and> (init ib ob sr = Inr s0 \<longrightarrow> 1 \<le> num_copies s0)
   \<and> (1 \<le> num_copies self \<longrightarrow>
        (\<exists>s'. ((\<exists>ns. set_input_bandwidth self b = Inr (s', ns))
                \<or> (\<exists>e. set_input_bandwidth self b = Inl (e, s')))
              \<and> 1 \<le> num_copies s'))
   \<and> (1 \<le> num_copies self \<and> length out0 = length in0 \<longrightarrow>
        (\<exists>out r s'. work self in0 out0 = Inr (out, r, s') \<and> 1 \<le> num_copies s'))
   \<and> (reachable s \<longrightarrow> 1 \<le> num_copies s)"
proof (intro conjI impI)
  assume "py_floordiv ob ib = Inr (Some q)"
  from init_finite [OF this, of sr]
  show "\<exists>s. init ib ob sr = Inr s \<and> 1 \<le> num_copies s" by simp
next
  assume "init ib ob sr = Inr s0"
  then show "1 \<le> num_copies s0" using init_plan by blast
next
  assume n: "1 \<le> num_copies self"
  show "\<exists>s'. ((\<exists>ns. set_input_bandwidth self b = Inr (s', ns))
                \<or> (\<exists>e. set_input_bandwidth self b = Inl (e, s')))
              \<and> 1 \<le> num_copies s'"
  proof (cases "0 < b")
    case True
    from set_input_bandwidth_outcomes [OF True, of self] n show ?thesis by auto
  next
    case False
    with n show ?thesis by (simp add: set_input_bandwidth_nonpos)
  qed
next
  assume a: "1 \<le> num_copies self \<and> length out0 = length in0"
  then have "length out0 = length in0" ..
  from work_length [OF this, of self] a
  show "\<exists>out r s'. work self in0 out0 = Inr (out, r, s') \<and> 1 \<le> num_copies s'"
    by auto
next
  assume "reachable s"
  then show "1 \<le> num_copies s" using reachable_plan by blast
qed

theorem num_copies_at_least_one_witness:
  "py_floordiv 10 3 = Inr (Some 3)
   \<and> (\<exists>s. init 3 10 1 = Inr s \<and> num_copies s = 3)
   \<and> 1 \<le> num_copies \<lparr>input_bw = 3, output_bw = 10, samp_rate = 1, num_copies = 3,
              shift_spacing = 10 / 3, sample_idx = 0\<rparr>
   \<and> (\<exists>s' ns. set_input_bandwidth \<lparr>input_bw = 3, output_bw = 10, samp_rate = 1, num_copies = 3,
              shift_spacing = 10 / 3, sample_idx = 0\<rparr> 20 = Inr (s', ns) \<and> num_copies s' = 1)
   \<and> length [None :: complex option] = length [\<i>]
   \<and> (\<exists>out r s'. work \<lparr>input_bw = 3, output_bw = 10, samp_rate = 1, num_copies = 3,
              shift_spacing = 10 / 3, sample_idx = 0\<rparr> [\<i>] [None] = Inr (out, r, s')
          \<and> 1 \<le> num_copies s')
   \<and> reachable \<lparr>input_bw = 3, output_bw = 10, samp_rate = 1, num_copies = 3,
              shift_spacing = 10 / 3, sample_idx = 0\<rparr>"
proof -
  let ?s = "\<lparr>input_bw = 3, output_bw = 10, samp_rate = 1, num_copies = 3,
              shift_spacing = 10 / 3, sample_idx = 0\<rparr>"
  have h: "(2::real) powi (- 1022) \<le> 3" "(2::real) powi (- 1022) \<le> 20"
    using tiny_powers(1) by linarith+
  have f3: "py_floordiv 10 3 = Inr (Some 3)"
    using py_floordiv_exact [of 3 10] h by simp
  have i: "init 3 10 1 = Inr ?s" by (rule init_3_10_1)
  then have r: "reachable ?s" by (rule reachable.constructed)
  have u: "set_input_bandwidth ?s 20 = Inr (?s\<lparr>input_bw := 20, num_copies := 1, shift_spacing := 10\<rparr>,
              [Bandwidth_updated 20 1 10])"
    using set_input_bandwidth_exact [of 20 ?s] h by simp
  from num_copies_at_least_one [where ib = 3 and ob = 10 and sr = 1 and q = 3 and ?s0.0 = ?s
      and self = ?s and b = 20 and ?in0.0 = "[\<i>]" and ?out0.0 = "[None]" and s = ?s] f3 i r u
  show ?thesis by simp
qed

text \<open>
  C10. For every argument, \<^verbatim>\<open>set_input_bandwidth\<close> leaves, whether it returns or raises,
  a block with the same \<^verbatim>\<open>output_bw\<close>, \<^verbatim>\<open>samp_rate\<close> and \<^verbatim>\<open>sample_idx\<close>; that block differs
  from the given one in \<^verbatim>\<open>input_bw\<close>, \<^verbatim>\<open>num_copies\<close> and \<^verbatim>\<open>shift_spacing\<close> at most.
\<close>

theorem set_input_bandwidth_frame:
  "\<exists>s'. ((\<exists>ns. set_input_bandwidth self b = Inr (s', ns))
          \<or> (\<exists>e. set_input_bandwidth self b = Inl (e, s'))) \<and>
     output_bw s' = output_bw self \<and> samp_rate s' = samp_rate self \<and>
     sample_idx s' = sample_idx self \<and>
     s'\<lparr>input_bw := input_bw self, num_copies := num_copies self,
        shift_spacing := shift_spacing self\<rparr> = self"
proof (cases "0 < b")
  case True
  from set_input_bandwidth_outcomes [OF True, of self] show ?thesis by auto
next
  case False
  then show ?thesis by (simp add: set_input_bandwidth_nonpos)
qed

end
